theory Spec2Isabelle
  imports Complex_Main
begin

section \<open>Strings\<close>

text \<open>
  A Python \<^verbatim>\<open>str\<close> is modelled as a \<open>string\<close>, one \<open>char\<close> per code point below 256
  (the Latin-1 range). On that range the classes the source relies on are:
  \<^item> \<^verbatim>\<open>str.strip()\<close> removes the characters for which \<^verbatim>\<open>str.isspace\<close> holds:
    code points 9-13, 28-32, 133 and 160;
  \<^item> \<^verbatim>\<open>\d\<close> of a \<^verbatim>\<open>str\<close> pattern matches the decimal digits, here \<^verbatim>\<open>0\<close> to \<^verbatim>\<open>9\<close>;
  \<^item> \<^verbatim>\<open>str.upper()\<close> maps \<^verbatim>\<open>a-z\<close> and the accented lower-case letters 224-254
    (but 247) 32 code points down, 181 to 924, 255 to 376 and 223 to the two letters
    \<^verbatim>\<open>SS\<close>; its result is therefore a list of code points.
\<close>

definition isspace :: "char \<Rightarrow> bool" where
  "isspace c = (let n = (of_char c :: nat) in
     (9 \<le> n \<and> n \<le> 13) \<or> (28 \<le> n \<and> n \<le> 32) \<or> n = 133 \<or> n = 160)"

definition strip :: "string \<Rightarrow> string" where
  "strip s = rev (dropWhile isspace (rev (dropWhile isspace s)))"

definition is_digit :: "char \<Rightarrow> bool" where
  "is_digit c = (let n = (of_char c :: nat) in 48 \<le> n \<and> n \<le> 57)"

definition digits :: "string \<Rightarrow> bool" where
  "digits s = list_all is_digit s"

definition upper_char :: "char \<Rightarrow> nat list" where
  "upper_char c = (let n = (of_char c :: nat) in
     if 97 \<le> n \<and> n \<le> 122 then [n - 32]
     else if n = 181 then [924]
     else if n = 223 then [83, 83]
     else if 224 \<le> n \<and> n \<le> 254 \<and> n \<noteq> 247 then [n - 32]
     else if n = 255 then [376]
     else [n])"

definition upper :: "string \<Rightarrow> nat list" where
  "upper s = concat (map upper_char s)"

definition code_points :: "string \<Rightarrow> nat list" where
  "code_points s = map of_char s"

definition endswith :: "string \<Rightarrow> char \<Rightarrow> bool" where
  "endswith s c = (s \<noteq> [] \<and> last s = c)"

text \<open>\<^verbatim>\<open>v.replace("'", "''")\<close>: every apostrophe (code point 39) is written twice.\<close>

definition replace_quote :: "string \<Rightarrow> string" where
  "replace_quote v = concat (map (\<lambda>c. if c = CHR 0x27 then [CHR 0x27, CHR 0x27] else [c]) v)"

text \<open>
  \<^verbatim>\<open>v.split(".")\<close>: the pieces of \<open>v\<close> between the occurrences of the separator, of
  which there is always at least one.
\<close>

fun split :: "char \<Rightarrow> string \<Rightarrow> string list" where
  "split sep [] = [[]]"
| "split sep (c # cs) =
     (if c = sep then [] # split sep cs
      else (case split sep cs of p # ps \<Rightarrow> (c # p) # ps | [] \<Rightarrow> [[c]]))"

text \<open>
  \<^verbatim>\<open>int(...)\<close> of a string of decimal digits, and the zero-padded decimal text of a
  non-negative number that \<^verbatim>\<open>strftime\<close> writes for \<^verbatim>\<open>%Y\<close> (width 4), \<^verbatim>\<open>%m %d %H %M %S\<close>
  (width 2) and \<^verbatim>\<open>%f\<close> (width 6).
\<close>

definition digit_val :: "char \<Rightarrow> int" where
  "digit_val c = int (of_char c) - 48"

definition int_of_digits :: "string \<Rightarrow> int" where
  "int_of_digits s = foldl (\<lambda>a c. 10 * a + digit_val c) 0 s"

definition digit_char :: "nat \<Rightarrow> char" where
  "digit_char n = ''0123456789'' ! (n mod 10)"

fun zpad :: "nat \<Rightarrow> nat \<Rightarrow> string" where
  "zpad 0 n = (if n = 0 then [] else zpad 0 (n div 10) @ [digit_char n])"
| "zpad (Suc w) n = zpad w (n div 10) @ [digit_char n]"

section \<open>The two patterns\<close>

text \<open>
  \<^verbatim>\<open>
  NUMERIC_RE = re.compile(r"^[+-]?\d+(?:\.\d+)?$")
  ISO_DT_RE = re.compile(
      r"^\d{4}-\d{2}-\d{2}"
      r"(?:T\d{2}:\d{2}:\d{2}"
      r"(?:\.\d{1,9})?"
      r"(?:Z|[+\-]\d{2}:\d{2})?"
      r")?$"
  )
  \<close>
  Each pattern is \<^verbatim>\<open>^body$\<close> and is used through \<^verbatim>\<open>.match\<close>. The bodies are
  deterministic: after a greedy run of digits the next item never starts with a digit,
  so a recogniser that reads the string from left to right accepts exactly what the
  backtracking matcher accepts. \<^verbatim>\<open>$\<close> matches at the end of the string and also just
  before a newline that ends it, which \<open>re_match\<close> writes out.
\<close>

definition re_match :: "(string \<Rightarrow> bool) \<Rightarrow> string \<Rightarrow> bool" where
  "re_match body s = (body s \<or> (endswith s (CHR 0x0A) \<and> body (butlast s)))"

text \<open>\<^verbatim>\<open>[+-]?\d+(?:\.\d+)?\<close>\<close>

definition numeric_body :: "string \<Rightarrow> bool" where
  "numeric_body s =
     (let r = (case s of [] \<Rightarrow> [] | c # cs \<Rightarrow> if c = CHR ''+'' \<or> c = CHR ''-'' then cs else s);
          ds = takeWhile is_digit r;
          rest = dropWhile is_digit r
      in ds \<noteq> [] \<and>
         (case rest of [] \<Rightarrow> True | d # fs \<Rightarrow> d = CHR ''.'' \<and> fs \<noteq> [] \<and> digits fs))"

definition NUMERIC_RE_match :: "string \<Rightarrow> bool" where
  "NUMERIC_RE_match s = re_match numeric_body s"

text \<open>\<^verbatim>\<open>\d{4}-\d{2}-\d{2}\<close>, on a string of exactly ten characters.\<close>

definition date_body :: "string \<Rightarrow> bool" where
  "date_body d =
     (length d = 10 \<and> digits (take 4 d) \<and> d ! 4 = CHR ''-'' \<and> digits (take 2 (drop 5 d)) \<and>
      d ! 7 = CHR ''-'' \<and> digits (drop 8 d))"

text \<open>\<^verbatim>\<open>T\d{2}:\d{2}:\d{2}\<close>, on a string of exactly nine characters.\<close>

definition hms_body :: "string \<Rightarrow> bool" where
  "hms_body t =
     (length t = 9 \<and> t ! 0 = CHR ''T'' \<and> digits (take 2 (drop 1 t)) \<and> t ! 3 = CHR '':'' \<and>
      digits (take 2 (drop 4 t)) \<and> t ! 6 = CHR '':'' \<and> digits (drop 7 t))"

text \<open>\<^verbatim>\<open>[+\-]\d{2}:\d{2}\<close>, on a string of exactly six characters.\<close>

definition offset_body :: "string \<Rightarrow> bool" where
  "offset_body z =
     (length z = 6 \<and> (z ! 0 = CHR ''+'' \<or> z ! 0 = CHR ''-'') \<and> digits (take 2 (drop 1 z)) \<and>
      z ! 3 = CHR '':'' \<and> digits (drop 4 z))"

text \<open>
  What follows the seconds: the digits of an optional fraction (\<open>None\<close> when there is no
  decimal point) and the text after it.
\<close>

definition frac_and_rest :: "string \<Rightarrow> string option \<times> string" where
  "frac_and_rest r =
     (case r of
        [] \<Rightarrow> (None, [])
      | c # cs \<Rightarrow> if c = CHR ''.'' then (Some (takeWhile is_digit cs), dropWhile is_digit cs)
                  else (None, r))"

definition iso_dt_body :: "string \<Rightarrow> bool" where
  "iso_dt_body v =
     (date_body (take 10 v) \<and>
      (let t = drop 10 v in
       t = [] \<or>
       (hms_body (take 9 t) \<and>
        (case frac_and_rest (drop 9 t) of
           (f, z) \<Rightarrow>
             (case f of None \<Rightarrow> True | Some ds \<Rightarrow> 1 \<le> length ds \<and> length ds \<le> 9) \<and>
             (z = [] \<or> z = ''Z'' \<or> offset_body z)))))"

definition ISO_DT_RE_match :: "string \<Rightarrow> bool" where
  "ISO_DT_RE_match s = re_match iso_dt_body s"

section \<open>The library's proleptic Gregorian calendar\<close>

text \<open>
  \<^verbatim>\<open>datetime.fromisoformat\<close>, \<^verbatim>\<open>astimezone\<close> and \<^verbatim>\<open>strftime\<close> belong to Python's standard
  library. They are modelled after the reference implementation (\<^verbatim>\<open>_pydatetime.py\<close>,
  CPython 3.11 to 3.13), whose calendar helpers are translated one to one:
  \<^verbatim>\<open>
  def _is_leap(year):
      return year % 4 == 0 and (year % 100 != 0 or year % 400 == 0)
  def _days_before_year(year):
      y = year - 1
      return y*365 + y//4 - y//100 + y//400
  def _days_in_month(year, month):
      if month == 2 and _is_leap(year): return 29
      return _DAYS_IN_MONTH[month]
  def _days_before_month(year, month):
      return _DAYS_BEFORE_MONTH[month] + (month > 2 and _is_leap(year))
  def _ymd2ord(year, month, day):
      return (_days_before_year(year) + _days_before_month(year, month) + day)
  \<close>
  Python's \<^verbatim>\<open>//\<close> and \<^verbatim>\<open>%\<close> round towards minus infinity, as \<open>div\<close> and \<open>mod\<close> on \<open>int\<close> do.
\<close>

datatype py_error = ValueError | OverflowError | ZeroDivisionError

definition MINYEAR :: int where "MINYEAR = 1"
definition MAXYEAR :: int where "MAXYEAR = 9999"
definition MAXORDINAL :: int where "MAXORDINAL = 3652059"

definition DAYS_IN_MONTH :: "int list" where
  "DAYS_IN_MONTH = [-1, 31, 28, 31, 30, 31, 30, 31, 31, 30, 31, 30, 31]"

definition DAYS_BEFORE_MONTH :: "int list" where
  "DAYS_BEFORE_MONTH = [-1, 0, 31, 59, 90, 120, 151, 181, 212, 243, 273, 304, 334]"

definition is_leap :: "int \<Rightarrow> bool" where
  "is_leap year = (year mod 4 = 0 \<and> (year mod 100 \<noteq> 0 \<or> year mod 400 = 0))"

definition days_before_year :: "int \<Rightarrow> int" where
  "days_before_year year = (let y = year - 1 in y * 365 + y div 4 - y div 100 + y div 400)"

definition days_in_month :: "int \<Rightarrow> int \<Rightarrow> int" where
  "days_in_month year month =
     (if month = 2 \<and> is_leap year then 29 else DAYS_IN_MONTH ! nat month)"

definition days_before_month :: "int \<Rightarrow> int \<Rightarrow> int" where
  "days_before_month year month =
     DAYS_BEFORE_MONTH ! nat month + (if month > 2 \<and> is_leap year then 1 else 0)"

definition ymd2ord :: "int \<Rightarrow> int \<Rightarrow> int \<Rightarrow> int" where
  "ymd2ord year month day = days_before_year year + days_before_month year month + day"

text \<open>
  \<^verbatim>\<open>
  def _ord2ymd(n):
      n -= 1
      n400, n = divmod(n, _DI400Y)
      year = n400 * 400 + 1
      n100, n = divmod(n, _DI100Y)
      n4, n = divmod(n, _DI4Y)
      n1, n = divmod(n, 365)
      year += n100 * 100 + n4 * 4 + n1
      if n1 == 4 or n100 == 4:
          return year-1, 12, 31
      leapyear = n1 == 3 and (n4 != 24 or n100 == 3)
      month = (n + 50) >> 5
      preceding = _DAYS_BEFORE_MONTH[month] + (month > 2 and leapyear)
      if preceding > n:
          month -= 1
          preceding -= _DAYS_IN_MONTH[month] + (month == 2 and leapyear)
      n -= preceding
      return year, month, n+1
  \<close>
  with \<^verbatim>\<open>_DI400Y = 146097\<close>, \<^verbatim>\<open>_DI100Y = 36524\<close> and \<^verbatim>\<open>_DI4Y = 1461\<close>.
\<close>

definition ord2ymd :: "int \<Rightarrow> int \<times> int \<times> int" where
  "ord2ymd n =
     (let na = n - 1;
          n400 = na div 146097; nb = na mod 146097;
          n100 = nb div 36524; nc = nb mod 36524;
          n4 = nc div 1461; nd = nc mod 1461;
          n1 = nd div 365; ne = nd mod 365;
          year = n400 * 400 + 1 + (n100 * 100 + n4 * 4 + n1)
      in if n1 = 4 \<or> n100 = 4 then (year - 1, 12, 31)
         else
           (let leapyear = (n1 = 3 \<and> (n4 \<noteq> 24 \<or> n100 = 3));
                month = (ne + 50) div 32;
                preceding = DAYS_BEFORE_MONTH ! nat month + (if month > 2 \<and> leapyear then 1 else 0)
            in if preceding > ne then
                 (let month' = month - 1;
                      preceding' = preceding -
                        (DAYS_IN_MONTH ! nat month' + (if month' = 2 \<and> leapyear then 1 else 0))
                  in (year, month', ne - preceding' + 1))
               else (year, month, ne - preceding + 1)))"

section \<open>Date-times\<close>

text \<open>
  A \<^verbatim>\<open>datetime\<close> object: its fields, and the UTC offset in seconds of its fixed-offset
  \<^verbatim>\<open>tzinfo\<close> (\<open>None\<close> for a naive value).
\<close>

record datetime =
  year :: int
  month :: int
  day :: int
  hour :: int
  minute :: int
  second :: int
  microsecond :: int
  tzinfo :: "int option"

text \<open>
  \<^verbatim>\<open>datetime.fromisoformat\<close> on the texts that reach it from \<open>as_sql_datetime2_126\<close>
  behind \<open>ISO_DT_RE\<close>: a date, \<^verbatim>\<open>T\<close>, a time of day, an optional fraction of any
  number of digits and an optional \<^verbatim>\<open>+HH:MM\<close> or \<^verbatim>\<open>-HH:MM\<close>. From a fraction the first six
  digits are read and scaled to microseconds, the others are dropped. The offset must
  lie strictly between minus and plus 24 hours, the fields in the ranges the
  constructor checks; every failure is a \<^verbatim>\<open>ValueError\<close>. (The further ISO 8601
  shapes the library reads, such as week dates, never match \<open>ISO_DT_RE\<close>; on them the
  model answers \<open>ValueError\<close>.)
\<close>

definition isoformat_shape :: "string \<Rightarrow> bool" where
  "isoformat_shape v =
     (date_body (take 10 v) \<and> hms_body (take 9 (drop 10 v)) \<and>
      (case frac_and_rest (drop 19 v) of
         (f, z) \<Rightarrow> (case f of None \<Rightarrow> True | Some ds \<Rightarrow> 1 \<le> length ds) \<and>
                   (z = [] \<or> offset_body z)))"

definition parse_microsecond :: "string \<Rightarrow> int" where
  "parse_microsecond ds =
     (let to_parse = min 6 (length ds) in int_of_digits (take to_parse ds) * 10 ^ (6 - to_parse))"

definition parse_offset :: "string \<Rightarrow> int" where
  "parse_offset z =
     (let tzsign = (if z ! 0 = CHR ''-'' then -1 else 1);
          tzhour = int_of_digits (take 2 (drop 1 z));
          tzminute = int_of_digits (drop 4 z)
      in tzsign * (tzhour * 3600 + tzminute * 60))"

definition check_fields :: "datetime \<Rightarrow> bool" where
  "check_fields dt =
     (MINYEAR \<le> year dt \<and> year dt \<le> MAXYEAR \<and> 1 \<le> month dt \<and> month dt \<le> 12 \<and>
      1 \<le> day dt \<and> day dt \<le> days_in_month (year dt) (month dt) \<and>
      0 \<le> hour dt \<and> hour dt \<le> 23 \<and> 0 \<le> minute dt \<and> minute dt \<le> 59 \<and>
      0 \<le> second dt \<and> second dt \<le> 59 \<and> 0 \<le> microsecond dt \<and> microsecond dt \<le> 999999)"

definition check_tzinfo :: "int option \<Rightarrow> bool" where
  "check_tzinfo tz = (case tz of None \<Rightarrow> True | Some off \<Rightarrow> - 86400 < off \<and> off < 86400)"

definition fromisoformat :: "string \<Rightarrow> py_error + datetime" where
  "fromisoformat v =
     (if \<not> isoformat_shape v then Inl ValueError
      else
        (case frac_and_rest (drop 19 v) of
           (f, z) \<Rightarrow>
             (let dt = \<lparr> year = int_of_digits (take 4 v),
                         month = int_of_digits (take 2 (drop 5 v)),
                         day = int_of_digits (take 2 (drop 8 v)),
                         hour = int_of_digits (take 2 (drop 11 v)),
                         minute = int_of_digits (take 2 (drop 14 v)),
                         second = int_of_digits (take 2 (drop 17 v)),
                         microsecond = (case f of None \<Rightarrow> 0 | Some ds \<Rightarrow> parse_microsecond ds),
                         tzinfo = (if z = [] then None else Some (parse_offset z)) \<rparr>
              in if check_tzinfo (tzinfo dt) \<and> check_fields dt then Inr dt
                 else Inl ValueError)))"

text \<open>
  \<^verbatim>\<open>dt.astimezone(timezone.utc)\<close> of an aware value is \<^verbatim>\<open>dt - offset\<close> with the UTC
  \<^verbatim>\<open>tzinfo\<close> attached (a value that is in UTC already is returned as it is). The
  subtraction is \<^verbatim>\<open>datetime.__add__\<close>:
  \<^verbatim>\<open>
  delta = timedelta(self.toordinal(), hours=self._hour, minutes=self._minute,
                    seconds=self._second, microseconds=self._microsecond)
  delta += other
  hour, rem = divmod(delta.seconds, 3600)
  minute, second = divmod(rem, 60)
  if 0 < delta.days <= _MAXORDINAL:
      return type(self).combine(date.fromordinal(delta.days),
                                time(hour, minute, second, delta.microseconds, ...))
  raise OverflowError("result out of range")
  \<close>
  where a \<^verbatim>\<open>timedelta\<close> keeps its seconds in \<open>0..86399\<close>. The offset is a whole number of
  seconds, so the microseconds are not touched.
\<close>

definition add_seconds :: "datetime \<Rightarrow> int \<Rightarrow> py_error + datetime" where
  "add_seconds dt other =
     (let total = ymd2ord (year dt) (month dt) (day dt) * 86400 +
                  hour dt * 3600 + minute dt * 60 + second dt + other;
          days = total div 86400; seconds = total mod 86400;
          hour' = seconds div 3600; rem = seconds mod 3600;
          minute' = rem div 60; second' = rem mod 60
      in if 0 < days \<and> days \<le> MAXORDINAL then
           (case ord2ymd days of
              (y, m, d) \<Rightarrow> Inr (dt\<lparr> year := y, month := m, day := d,
                                   hour := hour', minute := minute', second := second' \<rparr>))
         else Inl OverflowError)"

definition astimezone_utc :: "datetime \<Rightarrow> int \<Rightarrow> py_error + datetime" where
  "astimezone_utc dt off =
     (if off = 0 then Inr dt
      else (case add_seconds dt (- off) of
              Inl e \<Rightarrow> Inl e
            | Inr u \<Rightarrow> Inr (u\<lparr> tzinfo := Some 0 \<rparr>)))"

text \<open>\<^verbatim>\<open>dt.strftime("%Y-%m-%dT%H:%M:%S.%f")\<close>, every field zero-padded to its width.\<close>

definition strftime :: "datetime \<Rightarrow> string" where
  "strftime dt =
     zpad 4 (nat (year dt)) @ ''-'' @ zpad 2 (nat (month dt)) @ ''-'' @ zpad 2 (nat (day dt)) @
     ''T'' @ zpad 2 (nat (hour dt)) @ '':'' @ zpad 2 (nat (minute dt)) @ '':'' @
     zpad 2 (nat (second dt)) @ ''.'' @ zpad 6 (nat (microsecond dt))"


section \<open>The literal inference engine\<close>

text \<open>
  \<^verbatim>\<open>
  def as_sql_datetime2_126(s: str) -> str:
      v = s.strip()
      if re.match(r"^\d{4}-\d{2}-\d{2}$", v):
          v += "T00:00:00"
      if v.endswith("Z"):
          v = v[:-1] + "+00:00"
      try:
          dt = datetime.fromisoformat(v)
          if dt.tzinfo is not None:
              dt = dt.astimezone(timezone.utc).replace(tzinfo=None)
          v = dt.strftime("%Y-%m-%dT%H:%M:%S.%f")
          sec, frac = v.split(".")
          frac = (frac + "0")[:7]
          v = f"{sec}.{frac}"
      except Exception:
          # If parsing fails, fall back to the provided string with style 126
          pass
      return f"CONVERT(datetime2(7), '{v}', 126)"
  \<close>
  \<open>normalize\<close> is the two rewrites before the \<^verbatim>\<open>try\<close>, \<open>try_block\<close> its body with every
  exception as a value, and \<open>as_sql_datetime2_126\<close> keeps the text it had before the
  \<^verbatim>\<open>try\<close> when the body raised.
\<close>

definition normalize :: "string \<Rightarrow> string" where
  "normalize v0 =
     (let v1 = (if re_match date_body v0 then v0 @ ''T00:00:00'' else v0)
      in if endswith v1 (CHR ''Z'') then butlast v1 @ ''+00:00'' else v1)"

definition utc_naive :: "datetime \<Rightarrow> py_error + datetime" where
  "utc_naive dt =
     (case tzinfo dt of
        None \<Rightarrow> Inr dt
      | Some off \<Rightarrow>
          (case astimezone_utc dt off of
             Inl e \<Rightarrow> Inl e
           | Inr u \<Rightarrow> Inr (u\<lparr> tzinfo := None \<rparr>)))"

definition pad_fraction :: "string \<Rightarrow> py_error + string" where
  "pad_fraction v =
     (case split (CHR ''.'') v of
        [sec_text, frac_text] \<Rightarrow> Inr (sec_text @ ''.'' @ take 7 (frac_text @ ''0''))
      | _ \<Rightarrow> Inl ValueError)"

definition try_block :: "string \<Rightarrow> py_error + string" where
  "try_block v =
     (case fromisoformat v of
        Inl e \<Rightarrow> Inl e
      | Inr dt \<Rightarrow>
          (case utc_naive dt of
             Inl e \<Rightarrow> Inl e
           | Inr dt' \<Rightarrow> pad_fraction (strftime dt')))"

definition convert_126 :: "string \<Rightarrow> string" where
  "convert_126 v = ''CONVERT(datetime2(7), '' @ [CHR 0x27] @ v @ [CHR 0x27] @ '', 126)''"

definition as_sql_datetime2_126 :: "string \<Rightarrow> string" where
  "as_sql_datetime2_126 s =
     (let v = normalize (strip s)
      in convert_126 (case try_block v of Inr v' \<Rightarrow> v' | Inl e \<Rightarrow> v))"

text \<open>
  \<^verbatim>\<open>
  def to_sql_literal(val: Optional[str]) -> str:
      if val is None:
          return "NULL"
      v = str(val).strip()
      if v == "" or v.upper() == "NULL":
          return "NULL"
      if ISO_DT_RE.match(v):
          return as_sql_datetime2_126(v)
      if NUMERIC_RE.match(v):
          return v
      v = v.replace("'", "''")
      return f"N'{v}'"
  \<close>
\<close>

definition to_sql_literal :: "string option \<Rightarrow> string" where
  "to_sql_literal val =
     (case val of
        None \<Rightarrow> ''NULL''
      | Some s \<Rightarrow>
          (let v = strip s
           in if v = [] \<or> upper v = code_points ''NULL'' then ''NULL''
              else if ISO_DT_RE_match v then as_sql_datetime2_126 v
              else if NUMERIC_RE_match v then v
              else ''N'' @ [CHR 0x27] @ replace_quote v @ [CHR 0x27]))"

section \<open>Column set and chunks\<close>

text \<open>
  \<^verbatim>\<open>
  def build_columns(csv_columns, exclude, id_column, generate_uuid):
      cols = [c for c in (csv_columns or []) if c and c not in exclude]
      if id_column and generate_uuid:
          if id_column not in cols:
              cols = [id_column] + cols
          else:
              cols = [id_column] + [c for c in cols if c != id_column]
      return cols
  \<close>
  A name is truthy when it is not empty; the optional \<open>id_column\<close> is a
  \<open>string option\<close>, falsy when \<open>None\<close> or empty. \<open>csv_columns\<close> is the list that \<open>main\<close>
  passes (\<^verbatim>\<open>reader.fieldnames or []\<close>).
\<close>

definition build_columns ::
  "string list \<Rightarrow> string list \<Rightarrow> string option \<Rightarrow> bool \<Rightarrow> string list" where
  "build_columns csv_columns exclude id_column generate_uuid =
     (let cols = filter (\<lambda>c. c \<noteq> [] \<and> c \<notin> set exclude) csv_columns
      in case id_column of
           None \<Rightarrow> cols
         | Some idc \<Rightarrow>
             if idc \<noteq> [] \<and> generate_uuid then
               (if idc \<notin> set cols then idc # cols
                else idc # filter (\<lambda>c. c \<noteq> idc) cols)
             else cols)"

text \<open>
  \<^verbatim>\<open>a / b\<close> on two \<^verbatim>\<open>int\<close>s is true division: the result is a \<^verbatim>\<open>float\<close>, an IEEE 754
  binary64 number, and CPython computes it as the exact quotient rounded once to the
  nearest binary64 value, ties to the even significand. Division by zero raises
  \<^verbatim>\<open>ZeroDivisionError\<close>, a quotient that rounds beyond the largest finite value raises
  \<^verbatim>\<open>OverflowError\<close>, and a quotient too small for the smallest subnormal rounds to zero
  without an exception. A float is given here by its value, a rational number.
  The values of binary64 with binary exponent \<open>e\<close> are the multiples of
  \<open>2 powi (e - 52)\<close>; \<open>e\<close> is the position of the leading bit of the quotient, and no
  less than \<open>- 1022\<close>, where the subnormal numbers begin.
\<close>

definition round_half_even :: "rat \<Rightarrow> int" where
  "round_half_even x =
     (let f = \<lfloor>x\<rfloor>; d = x - of_int f
      in if d < 1 / 2 then f else if 1 / 2 < d then f + 1 else if even f then f else f + 1)"

definition exponent :: "rat \<Rightarrow> int" where
  "exponent m =
     (if m < 2 powi (- 1022) then - 1022
      else (case find (\<lambda>e. 2 powi e \<le> m) (rev [- 1022..1023]) of
              Some e \<Rightarrow> e
            | None \<Rightarrow> - 1022))"

definition true_divide :: "int \<Rightarrow> int \<Rightarrow> py_error + rat" where
  "true_divide a b =
     (if b = 0 then Inl ZeroDivisionError
      else
        (let q = rat_of_int a / rat_of_int b; m = \<bar>q\<bar>
         in if m = 0 then Inr 0
            else
              (let ulp = 2 powi (exponent m - 52);
                   x = of_int (round_half_even (m / ulp)) * ulp
               in if 2 powi 1024 \<le> x then Inl OverflowError
                  else Inr (if q < 0 then - x else x))))"

text \<open>
  The chunking of \<open>main\<close>:
  \<^verbatim>\<open>
  chunk_size = max(1, int(args.chunk_size))
  ...
  all_rows = list(reader)
  total = len(all_rows)
  if total == 0:
      print("CSV appears to be empty. Nothing to do.")
      return
  parts = math.ceil(total / chunk_size)
  for i in range(parts):
      start = i * chunk_size
      end = min(start + chunk_size, total)
      chunk = all_rows[start:end]
      path = write_chunk_sql(i + 1, chunk, cols, table, out_base, id_column, generate_uuid)
  \<close>
  \<open>main_chunks\<close> is the list of the pairs (index, chunk) that \<open>write_chunk_sql\<close> is
  called with, in the order of the calls; it is empty when \<open>main\<close> returns early. A
  slice \<^verbatim>\<open>xs[start:end]\<close> clamps both bounds to the list, counting a negative bound from
  the end. The quotient \<^verbatim>\<open>total / chunk_size\<close> is the floating-point one of \<open>true_divide\<close>,
  and \<^verbatim>\<open>math.ceil\<close> of a finite float is the ceiling of its value; an exception of the
  division leaves \<open>main\<close> before any chunk is written.
\<close>

definition effective_chunk_size :: "int \<Rightarrow> int" where
  "effective_chunk_size chunk_size_arg = max 1 chunk_size_arg"

definition slice_bound :: "'a list \<Rightarrow> int \<Rightarrow> nat" where
  "slice_bound xs i =
     (let n = int (length xs) in nat (if i < 0 then max 0 (n + i) else min i n))"

definition slice :: "'a list \<Rightarrow> int \<Rightarrow> int \<Rightarrow> 'a list" where
  "slice xs start end = drop (slice_bound xs start) (take (slice_bound xs end) xs)"

definition main_chunks :: "int \<Rightarrow> 'a list \<Rightarrow> py_error + (int \<times> 'a list) list" where
  "main_chunks chunk_size_arg all_rows =
     (let chunk_size = effective_chunk_size chunk_size_arg;
          total = int (length all_rows)
      in if total = 0 then Inr []
         else
           (case true_divide total chunk_size of
              Inl e \<Rightarrow> Inl e
            | Inr quot \<Rightarrow>
                (let parts = \<lceil>quot\<rceil>
                 in Inr (map (\<lambda>i. let start = i * chunk_size;
                                      end = min (start + chunk_size) total
                                  in (i + 1, slice all_rows start end))
                             [0..parts - 1]))))"

section \<open>Notions of the specification\<close>

text \<open>
  Equality up to the case of the ASCII letters (each character is read as its code
  point, a capital letter as that of its small letter), for the sentinel \<^verbatim>\<open>NULL\<close>
  "compared case-insensitively".
\<close>

definition lower_ascii :: "char \<Rightarrow> nat" where
  "lower_ascii c = (let n = (of_char c :: nat) in if 65 \<le> n \<and> n \<le> 90 then n + 32 else n)"

definition equals_ignoring_case :: "string \<Rightarrow> string \<Rightarrow> bool" where
  "equals_ignoring_case a b = (map lower_ascii a = map lower_ascii b)"

text \<open>
  The inverse transformation of a quoted literal: take the delimiters \<^verbatim>\<open>N'\<close> and \<^verbatim>\<open>'\<close>
  off, then read every doubled apostrophe as one, from left to right.
\<close>

fun collapse_quotes :: "string \<Rightarrow> string" where
  "collapse_quotes (a # b # cs) =
     (if a = CHR 0x27 \<and> b = CHR 0x27 then CHR 0x27 # collapse_quotes cs
      else a # collapse_quotes (b # cs))"
| "collapse_quotes cs = cs"

definition unquote_literal :: "string \<Rightarrow> string option" where
  "unquote_literal lit =
     (if 3 \<le> length lit \<and> take 2 lit = [CHR ''N'', CHR 0x27] \<and> last lit = CHR 0x27
      then Some (collapse_quotes (butlast (drop 2 lit)))
      else None)"

text \<open>The number of times a name occurs in a column list.\<close>

definition occurrences :: "string list \<Rightarrow> string \<Rightarrow> nat" where
  "occurrences cols c = length (filter (\<lambda>x. x = c) cols)"


section \<open>Chunking: auxiliary facts\<close>

lemma upto_as_upt: "[0..int n - 1] = map int [0..<n]"
proof (induction n)
  case 0
  then show ?case by simp
next
  case (Suc n)
  have "[0..int (Suc n) - 1] = [0..int n - 1] @ [int n]"
    using upto_rec2[of 0 "int n"] by simp
  with Suc show ?case by simp
qed

lemma slice_nonneg:
  assumes "0 \<le> a" and "0 \<le> b"
  shows "slice xs a b = drop (nat a) (take (nat b) xs)"
proof -
  have a: "slice_bound xs a = min (nat a) (length xs)"
    and b: "slice_bound xs b = min (nat b) (length xs)"
    using assms by (auto simp: slice_bound_def Let_def min_def)
  have t: "take (min (nat b) (length xs)) xs = take (nat b) xs"
    by (simp add: min_def)
  have "drop (min (nat a) (length xs)) (take (nat b) xs) = drop (nat a) (take (nat b) xs)"
    by (cases "nat a \<le> length xs") (simp_all add: min_def)
  then show ?thesis
    by (simp add: slice_def a b t)
qed

lemma parts_upper:
  assumes "0 < c"
  shows "n \<le> \<lceil>rat_of_int n / rat_of_int c\<rceil> * c"
proof -
  have cpos: "0 < rat_of_int c"
    using assms by simp
  have "rat_of_int n / rat_of_int c \<le> rat_of_int \<lceil>rat_of_int n / rat_of_int c\<rceil>"
    by (rule le_of_int_ceiling)
  then have "rat_of_int n \<le> rat_of_int \<lceil>rat_of_int n / rat_of_int c\<rceil> * rat_of_int c"
    using pos_divide_le_eq[OF cpos] by blast
  then have "rat_of_int n \<le> rat_of_int (\<lceil>rat_of_int n / rat_of_int c\<rceil> * c)"
    by simp
  then show ?thesis
    by (simp only: of_int_le_iff)
qed

lemma parts_lower:
  assumes "0 < c"
  shows "(\<lceil>rat_of_int n / rat_of_int c\<rceil> - 1) * c < n"
proof -
  have cpos: "0 < rat_of_int c"
    using assms by simp
  have "rat_of_int \<lceil>rat_of_int n / rat_of_int c\<rceil> - 1 < rat_of_int n / rat_of_int c"
    by linarith
  then have "(rat_of_int \<lceil>rat_of_int n / rat_of_int c\<rceil> - 1) * rat_of_int c < rat_of_int n"
    using pos_less_divide_eq[OF cpos] by blast
  then have "rat_of_int ((\<lceil>rat_of_int n / rat_of_int c\<rceil> - 1) * c) < rat_of_int n"
    by simp
  then show ?thesis
    by (simp only: of_int_less_iff)
qed

lemma parts_nonneg:
  assumes "0 < c" and "0 \<le> n"
  shows "0 \<le> \<lceil>rat_of_int n / rat_of_int c\<rceil>"
proof -
  have "0 \<le> rat_of_int n / rat_of_int c"
    using assms by simp
  then show ?thesis
    using ceiling_mono[of 0 "rat_of_int n / rat_of_int c"] by simp
qed

subsection \<open>Floating-point division\<close>

text \<open>Rounding to the nearest integer, between two integers.\<close>

lemma round_half_even_le:
  assumes "x \<le> of_int k"
  shows "round_half_even x \<le> k"
proof (cases "x = of_int k")
  case True
  then show ?thesis by (simp add: round_half_even_def)
next
  case False
  with assms have "x < of_int k" by simp
  then have "\<lfloor>x\<rfloor> < k" by (simp add: floor_less_iff)
  then show ?thesis by (simp add: round_half_even_def Let_def)
qed

lemma round_half_even_ge:
  assumes "of_int m + 1 / 2 < x"
  shows "m + 1 \<le> round_half_even x"
proof (cases "m + 1 \<le> \<lfloor>x\<rfloor>")
  case True
  then show ?thesis by (simp add: round_half_even_def Let_def)
next
  case False
  have "of_int m \<le> x" using assms by simp
  then have "m \<le> \<lfloor>x\<rfloor>" by (simp add: le_floor_iff)
  with False have f: "\<lfloor>x\<rfloor> = m" by simp
  then have "1 / 2 < x - of_int \<lfloor>x\<rfloor>" using assms by simp
  then show ?thesis by (simp add: round_half_even_def Let_def f)
qed

lemma exponent_cases:
  assumes "0 < m"
  obtains "m < 2 powi (- 1022)" and "exponent m = - 1022"
  | "2 powi exponent m \<le> m"
proof (cases "m < 2 powi (- 1022)")
  case True
  then have "exponent m = - 1022" unfolding exponent_def by (simp only: if_True)
  with True show ?thesis using that(1) by blast
next
  case False
  show ?thesis
  proof (cases "find (\<lambda>e. 2 powi e \<le> m) (rev [- 1022..1023])")
    case None
    have "exponent m = - 1022"
      unfolding exponent_def by (simp only: False if_False None option.case)
    then show ?thesis using that(2) False by simp
  next
    case (Some e)
    then obtain i where "2 powi (rev [- 1022..1023] ! i) \<le> m" and "e = rev [- 1022..1023] ! i"
      unfolding find_Some_iff by blast
    then have "2 powi e \<le> m" by (simp only:)
    moreover have "exponent m = e"
      unfolding exponent_def by (simp only: False if_False Some option.case)
    ultimately show ?thesis using that(2) by (simp only:)
  qed
qed

lemma powi_nonneg_int:
  assumes "0 \<le> k"
  shows "(2::rat) powi k = of_int (2 ^ nat k)"
  using assms by (simp add: power_int_def)

text \<open>
  The ceiling of the floating-point quotient is the ceiling of the exact quotient when
  the dividend is below \<open>2 ^ 53\<close> and the divisor below \<open>2 ^ 1075\<close>: the exact quotient
  lies at least \<open>1 / b\<close> above the integer below it, which is more than half a unit in
  the last place, so rounding neither falls to that integer nor passes the one above.
\<close>

lemma float_ceiling_exact:
  assumes a: "0 < a" "a < 2 ^ 53" and b: "0 < b" "b < 2 ^ 1075"
  shows "\<exists>x. true_divide a b = Inr x \<and> \<lceil>x\<rceil> = \<lceil>rat_of_int a / rat_of_int b\<rceil>"
proof -
  define q where "q = rat_of_int a / rat_of_int b"
  define e where "e = exponent q"
  define ulp :: rat where "ulp = 2 powi (e - 52)"
  define k where "k = \<lceil>q\<rceil>"
  have bpos: "0 < rat_of_int b" using b(1) by simp
  have qpos: "0 < q" using a(1) b(1) by (simp add: q_def)
  have upos: "0 < ulp" by (simp add: ulp_def)
  have qa: "q \<le> rat_of_int a"
  proof -
    have "rat_of_int a \<le> rat_of_int a * rat_of_int b"
      using a(1) b(1) by (simp add: mult_le_cancel_left1 flip: of_int_mult)
    then show ?thesis unfolding q_def using bpos by (simp add: pos_divide_le_eq)
  qed
  have a53: "rat_of_int a < 2 powi 53"
  proof -
    have "rat_of_int a < rat_of_int (2 ^ 53)" using a(2) by (simp only: of_int_less_iff)
    then show ?thesis by simp
  qed
  have facts: "e \<le> 52 \<and> rat_of_int b * ulp < 2"
  proof (rule exponent_cases [OF qpos])
    assume small: "q < 2 powi (- 1022)" and ex: "exponent q = - 1022"
    have e: "e = - 1022" using ex by (simp add: e_def)
    have "rat_of_int b < rat_of_int (2 ^ 1075)" using b(2) by (simp only: of_int_less_iff)
    then have "rat_of_int b < 2 * 2 ^ 1074" by simp
    then have "rat_of_int b * ulp < 2"
      by (simp add: ulp_def e power_int_minus field_simps)
    then show ?thesis using e by simp
  next
    assume le: "2 powi exponent q \<le> q"
    then have le': "2 powi e \<le> q" by (simp add: e_def)
    have "e < 53"
    proof (rule ccontr)
      assume "\<not> e < 53"
      then have "(2::rat) powi 53 \<le> 2 powi e" by (intro power_int_increasing) simp_all
      with le' qa a53 show False by linarith
    qed
    then have e52: "e \<le> 52" by simp
    have "rat_of_int b * 2 powi e \<le> rat_of_int a"
      using le' bpos unfolding q_def by (simp add: pos_le_divide_eq mult.commute)
    then have "rat_of_int b * 2 powi e < 2 powi 53" using a53 by linarith
    then have "rat_of_int b * 2 powi e < 2 * 4503599627370496" by simp
    moreover have "2 powi e = ulp * 4503599627370496"
      unfolding ulp_def by (simp add: power_int_diff)
    ultimately have "rat_of_int b * (ulp * 4503599627370496) < 2 * 4503599627370496"
      by (simp only:)
    then have "rat_of_int b * ulp * 4503599627370496 < 2 * 4503599627370496"
      by (simp only: mult.assoc)
    then have "rat_of_int b * ulp < 2" by linarith
    with e52 show ?thesis by simp
  qed
  define s :: int where "s = 2 ^ nat (52 - e)"
  have inv: "1 / ulp = rat_of_int s"
  proof -
    have "52 - e = - (e - 52)" by simp
    then have "(2::rat) powi (52 - e) = inverse (2 powi (e - 52))"
      by (simp only: power_int_minus)
    then have "1 / ulp = 2 powi (52 - e)"
      unfolding ulp_def by (simp only: inverse_eq_divide)
    also have "\<dots> = rat_of_int s"
      unfolding s_def using facts by (intro powi_nonneg_int) simp
    finally show ?thesis .
  qed
  have su: "rat_of_int s * ulp = 1" using inv upos by (simp add: field_simps)
  have scale: "rat_of_int j / ulp = rat_of_int (j * s)" for j
  proof -
    have "rat_of_int j / ulp = rat_of_int j * (1 / ulp)" by simp
    then show ?thesis by (simp only: inv of_int_mult)
  qed
  define r where "r = round_half_even (q / ulp)"
  define x where "x = rat_of_int r * ulp"
  have upper: "x \<le> rat_of_int k"
  proof -
    have "q \<le> rat_of_int k" by (simp add: k_def)
    then have "q / ulp \<le> rat_of_int k / ulp" using upos by (simp add: divide_right_mono)
    then have "q / ulp \<le> rat_of_int (k * s)" by (simp only: scale)
    then have "r \<le> k * s" unfolding r_def by (rule round_half_even_le)
    then have "rat_of_int r \<le> rat_of_int (k * s)" by (simp only: of_int_le_iff)
    then have "rat_of_int r * ulp \<le> rat_of_int (k * s) * ulp"
      using upos by (simp add: mult_right_mono)
    also have "rat_of_int (k * s) * ulp = rat_of_int k * (rat_of_int s * ulp)" by simp
    also have "\<dots> = rat_of_int k" by (simp only: su mult_1_right)
    finally show ?thesis by (simp add: x_def)
  qed
  have lower: "rat_of_int k - 1 < x"
  proof -
    have "rat_of_int (k - 1) < q" unfolding k_def using ceiling_correct [of q] by simp
    then have "rat_of_int (k - 1) * rat_of_int b < rat_of_int a"
      unfolding q_def using bpos by (simp add: pos_less_divide_eq)
    then have "rat_of_int ((k - 1) * b) < rat_of_int a" by simp
    then have "(k - 1) * b < a" by (simp only: of_int_less_iff)
    then have "(k - 1) * b + 1 \<le> a" by simp
    then have "rat_of_int ((k - 1) * b + 1) \<le> rat_of_int a" by (simp only: of_int_le_iff)
    then have "rat_of_int (k - 1) * rat_of_int b + 1 \<le> rat_of_int a" by simp
    then have "(rat_of_int (k - 1) * rat_of_int b + 1) / rat_of_int b \<le> q"
      unfolding q_def using bpos by (simp add: divide_right_mono)
    then have ql: "rat_of_int (k - 1) + 1 / rat_of_int b \<le> q"
      using bpos by (simp add: add_divide_distrib)
    have "1 / 2 < 1 / (rat_of_int b * ulp)"
      using facts bpos upos by (simp add: field_simps)
    then have half: "1 / 2 < 1 / rat_of_int b / ulp" by (simp add: field_simps)
    have "(rat_of_int (k - 1) + 1 / rat_of_int b) / ulp \<le> q / ulp"
      using ql upos by (simp add: divide_right_mono)
    then have "rat_of_int (k - 1) / ulp + 1 / rat_of_int b / ulp \<le> q / ulp"
      by (simp add: add_divide_distrib)
    then have "rat_of_int ((k - 1) * s) + 1 / rat_of_int b / ulp \<le> q / ulp"
      by (simp only: scale)
    with half have "rat_of_int ((k - 1) * s) + 1 / 2 < q / ulp" by linarith
    then have "(k - 1) * s + 1 \<le> r" unfolding r_def by (rule round_half_even_ge)
    then have "rat_of_int ((k - 1) * s + 1) \<le> rat_of_int r" by (simp only: of_int_le_iff)
    then have "rat_of_int ((k - 1) * s + 1) * ulp \<le> rat_of_int r * ulp"
      using upos by (simp add: mult_right_mono)
    moreover have "rat_of_int ((k - 1) * s + 1) * ulp = rat_of_int (k - 1) * (rat_of_int s * ulp) + ulp"
      by (simp add: algebra_simps)
    ultimately have "rat_of_int (k - 1) + ulp \<le> x" by (simp add: su x_def)
    with upos show ?thesis by simp
  qed
  have no_overflow: "\<not> 2 powi 1024 \<le> x"
  proof -
    have "k \<le> a" unfolding k_def using qa by (simp add: ceiling_le_iff)
    then have "rat_of_int k \<le> rat_of_int a" by (simp only: of_int_le_iff)
    moreover have "(2::rat) powi 53 \<le> 2 powi 1024" by (intro power_int_increasing) simp_all
    ultimately show ?thesis using upper a53 by linarith
  qed
  have "true_divide a b = Inr x"
  proof -
    have b0: "b \<noteq> 0" using b(1) by simp
    have m: "\<bar>rat_of_int a / rat_of_int b\<bar> = q" using a(1) b(1) by (simp add: q_def)
    have q0: "q \<noteq> 0" "\<not> q < 0" using qpos by simp_all
    show ?thesis
      unfolding true_divide_def Let_def m
      unfolding q_def [symmetric] e_def [symmetric]
      unfolding ulp_def [symmetric] r_def [symmetric] x_def [symmetric]
      by (simp only: b0 q0 no_overflow if_False)
  qed
  moreover have "\<lceil>x\<rceil> = k" using lower upper by (intro ceiling_unique) simp_all
  ultimately show ?thesis by (simp add: k_def q_def)
qed

lemma round_half_even_small:
  assumes "0 \<le> x" and "x \<le> 1 / 2"
  shows "round_half_even x = 0"
proof -
  have "\<lfloor>x\<rfloor> = 0" using assms by (simp add: floor_eq_iff)
  then show ?thesis using assms by (auto simp: round_half_even_def Let_def)
qed

text \<open>
  A quotient of at most \<open>2 powi (- 1075)\<close>, half the smallest subnormal number, rounds to
  zero.
\<close>

lemma float_underflow:
  assumes a: "0 < a" and ab: "a * 2 ^ 1075 \<le> b"
  shows "true_divide a b = Inr 0"
proof -
  define q where "q = rat_of_int a / rat_of_int b"
  define ulp :: rat where "ulp = 2 powi (- 1074)"
  have "0 < a * 2 ^ 1075" using a by simp
  with ab have b: "0 < b" by linarith
  have bpos: "0 < rat_of_int b" using b by simp
  have qpos: "0 < q" using a b by (simp add: q_def)
  have upos: "0 < ulp" by (simp add: ulp_def)
  have "rat_of_int (a * 2 ^ 1075) \<le> rat_of_int b" using ab by (simp only: of_int_le_iff)
  then have "rat_of_int a * 2 ^ 1075 \<le> rat_of_int b" by simp
  then have "rat_of_int a * 2 ^ 1075 / rat_of_int b \<le> 1"
    using bpos by (simp add: pos_divide_le_eq)
  then have q1075: "q * 2 ^ 1075 \<le> 1" by (simp add: q_def)
  have u: "ulp * 2 ^ 1074 = 1"
    unfolding ulp_def by (simp add: power_int_minus)
  have "q * 2 ^ 1075 = q * 2 * 2 ^ 1074" by simp
  with q1075 u have "q * 2 * 2 ^ 1074 \<le> ulp * 2 ^ 1074" by (simp only:)
  then have half: "q * 2 \<le> ulp" by simp
  then have "q / ulp \<le> 1 / 2" using upos by (simp add: pos_divide_le_eq)
  moreover have "0 \<le> q / ulp" using qpos upos by simp
  ultimately have r: "round_half_even (q / ulp) = 0" by (intro round_half_even_small)
  have "(2::rat) powi (- 1074) < 2 powi (- 1022)"
    by (intro power_int_strict_increasing) simp_all
  with half qpos have small: "q < 2 powi (- 1022)" by (simp add: ulp_def)
  have e: "exponent q = - 1022" unfolding exponent_def by (simp only: small if_True)
  have ue: "2 powi (exponent q - 52) = ulp" by (simp add: e ulp_def)
  have b0: "b \<noteq> 0" using b by simp
  have m: "\<bar>rat_of_int a / rat_of_int b\<bar> = q" using a b by (simp add: q_def)
  have q0: "q \<noteq> 0" "\<not> q < 0" using qpos by simp_all
  have ov: "\<not> (2::rat) powi 1024 \<le> 0" by simp
  show ?thesis
    unfolding true_divide_def Let_def m
    unfolding q_def [symmetric] ue r
    by (simp only: b0 q0 ov if_False of_int_0 mult_zero_left)
qed

subsection \<open>The chunks\<close>

text \<open>
  The calls of \<open>main\<close>, chunk by chunk, for a chunk size of at least 1 and in the range
  where the floating-point quotient has the ceiling of the exact one.
\<close>

lemma main_chunks_unfold:
  fixes all_rows :: "'a list"
  assumes "1 \<le> chunk_size" and "chunk_size < 2 ^ 1075" and "length all_rows < 2 ^ 53"
  shows "main_chunks chunk_size all_rows =
         Inr (map (\<lambda>k. (int k + 1, take (nat chunk_size) (drop (k * nat chunk_size) all_rows)))
                  [0..<nat \<lceil>rat_of_int (int (length all_rows)) / rat_of_int chunk_size\<rceil>])"
proof (cases "all_rows = []")
  case True
  then show ?thesis by (simp add: main_chunks_def Let_def)
next
  case False
  define c where "c = nat chunk_size"
  define p where "p = nat \<lceil>rat_of_int (int (length all_rows)) / rat_of_int chunk_size\<rceil>"
  have c: "chunk_size = int c" "0 < c" using assms by (auto simp: c_def)
  have pn: "\<lceil>rat_of_int (int (length all_rows)) / rat_of_int chunk_size\<rceil> = int p"
    using parts_nonneg[of chunk_size "int (length all_rows)"] assms by (simp add: p_def)
  have n0: "0 < int (length all_rows)" using False by simp
  have "int (length all_rows) < int (2 ^ 53)" using assms(3) by (simp only: of_nat_less_iff)
  then have n53: "int (length all_rows) < 2 ^ 53" by simp
  have cp: "0 < chunk_size" using assms(1) by simp
  obtain x where td: "true_divide (int (length all_rows)) chunk_size = Inr x"
    and cx: "\<lceil>x\<rceil> = int p"
    using float_ceiling_exact[OF n0 n53 cp assms(2)] pn by auto
  have sl: "slice all_rows (int k * int c) (min (int k * int c + int c) (int (length all_rows)))
            = take c (drop (k * c) all_rows)" for k
  proof -
    have "slice all_rows (int k * int c) (min (int k * int c + int c) (int (length all_rows)))
          = drop (nat (int k * int c)) (take (nat (min (int k * int c + int c) (int (length all_rows)))) all_rows)"
      by (rule slice_nonneg) simp_all
    also have "nat (int k * int c) = k * c"
      by (simp add: nat_mult_distrib)
    also have "nat (min (int k * int c + int c) (int (length all_rows))) = min (k * c + c) (length all_rows)"
    proof -
      have "int k * int c + int c = int (k * c + c)"
        by simp
      then have "min (int k * int c + int c) (int (length all_rows)) = int (min (k * c + c) (length all_rows))"
        by (simp only: of_nat_min)
      then show ?thesis by (simp only: nat_int)
    qed
    also have "drop (k * c) (take (min (k * c + c) (length all_rows)) all_rows) = take c (drop (k * c) all_rows)"
      by (simp add: drop_take min_def)
    finally show ?thesis .
  qed
  have e: "effective_chunk_size chunk_size = int c"
    using assms(1) c(1) by (simp add: effective_chunk_size_def)
  have td': "true_divide (int (length all_rows)) (int c) = Inr x"
    using td c(1) by simp
  have "main_chunks chunk_size all_rows =
        Inr (map (\<lambda>i. (i + 1, slice all_rows (i * int c) (min (i * int c + int c) (int (length all_rows)))))
                 [0..int p - 1])"
    using False by (simp add: main_chunks_def Let_def e td' cx)
  also have "\<dots> = Inr (map (\<lambda>k. (int k + 1, take c (drop (k * c) all_rows))) [0..<p])"
    by (simp add: upto_as_upt sl comp_def)
  finally show ?thesis by (simp add: c_def p_def)
qed

lemma concat_chunks:
  "concat (map (\<lambda>k. take c (drop (k * c) xs)) [0..<p]) = take (p * c) xs"
proof (induction p)
  case 0
  then show ?case by simp
next
  case (Suc p)
  have "Suc p * c = p * c + c"
    by simp
  then have "take (Suc p * c) xs = take (p * c) xs @ take c (drop (p * c) xs)"
    by (simp only: take_add)
  with Suc show ?case by simp
qed

text \<open>
  In that range \<open>main\<close> cuts the rows into \<open>\<lceil>N / chunk_size\<rceil>\<close> chunks: the chunk at \<open>k\<close>
  (from 0) carries the number \<open>k + 1\<close> and is the slice from \<open>k * chunk_size\<close> up to, not
  including, \<open>min ((k + 1) * chunk_size) N\<close>; every chunk but possibly the last has
  exactly \<open>chunk_size\<close> rows; and the chunks, concatenated in order, are the rows.
\<close>

lemma main_chunks_partition_in_range:
  fixes all_rows :: "'a list"
  assumes "0 < chunk_size" and "chunk_size < 2 ^ 1075" and "length all_rows < 2 ^ 53"
  shows "\<exists>chunks. main_chunks chunk_size all_rows = Inr chunks \<and>
           length chunks = nat \<lceil>rat_of_int (int (length all_rows)) / rat_of_int chunk_size\<rceil> \<and>
           (\<forall>k < length chunks.
              chunks ! k =
                (int k + 1,
                 drop (k * nat chunk_size)
                   (take (min ((k + 1) * nat chunk_size) (length all_rows)) all_rows))) \<and>
           (\<forall>k. k + 1 < length chunks \<longrightarrow> length (snd (chunks ! k)) = nat chunk_size) \<and>
           concat (map snd chunks) = all_rows"
proof -
  define c where "c = nat chunk_size"
  define n where "n = length all_rows"
  define p where "p = nat \<lceil>rat_of_int (int n) / rat_of_int chunk_size\<rceil>"
  define chunks where "chunks = map (\<lambda>k. (int k + 1, take c (drop (k * c) all_rows))) [0..<p]"
  have cpos: "0 < c" and cs: "chunk_size = int c"
    using assms by (simp_all add: c_def)
  have unf: "main_chunks chunk_size all_rows = Inr chunks"
    using main_chunks_unfold[of chunk_size all_rows] assms
    by (simp add: c_def p_def n_def chunks_def)
  have pint: "\<lceil>rat_of_int (int n) / rat_of_int chunk_size\<rceil> = int p"
    using parts_nonneg[of chunk_size "int n"] assms by (simp add: p_def)
  have "int n \<le> \<lceil>rat_of_int (int n) / rat_of_int chunk_size\<rceil> * chunk_size"
    by (rule parts_upper[OF assms(1)])
  then have "int n \<le> int p * chunk_size"
    by (simp only: pint)
  then have "int n \<le> int p * int c"
    by (simp only: cs)
  then have upper: "n \<le> p * c"
    by (metis of_nat_mult of_nat_le_iff)
  have "(\<lceil>rat_of_int (int n) / rat_of_int chunk_size\<rceil> - 1) * chunk_size < int n"
    by (rule parts_lower[OF assms(1)])
  then have "(int p - 1) * chunk_size < int n"
    by (simp only: pint)
  then have "(int p - 1) * int c < int n"
    by (simp only: cs)
  then have lower: "k + 1 < p \<Longrightarrow> (k + 1) * c < n" for k
  proof -
    assume k: "k + 1 < p"
    assume l: "(int p - 1) * int c < int n"
    have "int (k + 1) \<le> int p - 1" using k by simp
    then have "int (k + 1) * int c \<le> (int p - 1) * int c"
      by (rule mult_right_mono) simp
    then have "int (k + 1) * int c < int n" using l by (rule le_less_trans)
    then have "int ((k + 1) * c) < int n" by (simp only: of_nat_mult)
    then show ?thesis by (simp only: of_nat_less_iff)
  qed
  have len: "length chunks = p"
    by (simp add: chunks_def)
  have nth: "chunks ! k = (int k + 1, drop (k * c) (take (min ((k + 1) * c) n) all_rows))"
    if "k < p" for k
    using that by (simp add: chunks_def n_def drop_take min_def)
  have full: "length (snd (chunks ! k)) = c" if "k + 1 < p" for k
  proof -
    have "(k + 1) * c < n" using lower that by simp
    then show ?thesis using that by (simp add: chunks_def n_def)
  qed
  have "concat (map snd chunks) = take (p * c) all_rows"
    by (simp add: chunks_def comp_def concat_chunks)
  then have cat: "concat (map snd chunks) = all_rows"
    using upper by (simp add: n_def)
  have "main_chunks chunk_size all_rows = Inr chunks \<and>
        length chunks = nat \<lceil>rat_of_int (int (length all_rows)) / rat_of_int chunk_size\<rceil> \<and>
        (\<forall>k < length chunks.
           chunks ! k =
             (int k + 1,
              drop (k * nat chunk_size)
                (take (min ((k + 1) * nat chunk_size) (length all_rows)) all_rows))) \<and>
        (\<forall>k. k + 1 < length chunks \<longrightarrow> length (snd (chunks ! k)) = nat chunk_size) \<and>
        concat (map snd chunks) = all_rows"
    using unf len nth full cat by (simp add: c_def p_def n_def)
  then show ?thesis by (rule exI)
qed

section \<open>Column set: claims C7, C8 and C10\<close>

text \<open>
  Claim C7. For every header, every exclusion list and every non-empty key column name,
  with the generation flag set, the column set returned by \<open>build_columns\<close> starts
  with the key column and holds it exactly once, wherever (and whether) the header
  names it.
\<close>

theorem build_columns_key_first_once:
  assumes "id_column \<noteq> []"
  shows "build_columns csv_columns exclude (Some id_column) True \<noteq> [] \<and>
         hd (build_columns csv_columns exclude (Some id_column) True) = id_column \<and>
         occurrences (build_columns csv_columns exclude (Some id_column) True) id_column = 1"
  using assms
  by (auto simp: build_columns_def Let_def occurrences_def filter_empty_conv)

theorem build_columns_key_first_once_witness:
  "''Id'' \<noteq> [] \<and>
   build_columns [''Name'', ''Id'', ''Age''] [''RowVersion''] (Some ''Id'') True \<noteq> [] \<and>
   hd (build_columns [''Name'', ''Id'', ''Age''] [''RowVersion''] (Some ''Id'') True) = ''Id'' \<and>
   occurrences (build_columns [''Name'', ''Id'', ''Age''] [''RowVersion''] (Some ''Id'') True) ''Id'' = 1"
  using build_columns_key_first_once[of "''Id''" "[''Name'', ''Id'', ''Age'']" "[''RowVersion'']"]
  by simp

text \<open>
  Claim C8, as stated: the column set never holds a name twice, even when the header
  does. \<open>build_columns\<close> has no step that removes duplicates: a header that names
  \<^verbatim>\<open>a\<close> twice gives a column set that names it twice.
\<close>

theorem build_columns_duplicates_counterexample:
  "\<not> distinct (build_columns [''a'', ''a''] [] None False)"
  by (simp add: build_columns_def)

text \<open>
  Claim C8, amended: for every header without duplicate names, every exclusion list,
  key column name and generation flag, no name occurs more than once in the column set
  returned by \<open>build_columns\<close>.
\<close>

theorem build_columns_distinct:
  assumes "distinct csv_columns"
  shows "distinct (build_columns csv_columns exclude id_column generate_uuid)"
  using assms
  by (auto simp: build_columns_def Let_def split: option.splits)

theorem build_columns_distinct_witness:
  "distinct [''Id'', ''Name''] \<and>
   distinct (build_columns [''Id'', ''Name''] [''RowVersion''] (Some ''Id'') True)"
  using build_columns_distinct[of "[''Id'', ''Name'']" "[''RowVersion'']" "Some ''Id''" True]
  by simp

text \<open>
  Claim C10. For every header, \<open>build_columns\<close> drops the columns whose name is empty,
  whether or not the exclusion list names them: the empty name is never among the
  columns returned.
\<close>

theorem build_columns_no_empty_name:
  "[] \<notin> set (build_columns csv_columns exclude id_column generate_uuid)"
  by (auto simp: build_columns_def Let_def split: option.splits)

theorem build_columns_no_empty_name_witness:
  "[] \<notin> set (build_columns [''a'', [], ''b''] [''RowVersion''] None False) \<and>
   build_columns [''a'', [], ''b''] [''RowVersion''] None False = [''a'', ''b'']"
  using build_columns_no_empty_name[of "[''a'', [], ''b'']" "[''RowVersion'']" None False]
  by (simp add: build_columns_def)

section \<open>Chunks: claims C2 and C9\<close>

text \<open>
  Claim C2 says that for every positive chunk size the rows are cut into
  \<open>\<lceil>N / chunk_size\<rceil>\<close> chunks which, concatenated, are the rows. The code takes the
  quotient in floating point: with a chunk size of \<open>10 ^ 324\<close> and two rows the quotient
  underflows to zero, its ceiling is 0 where \<open>\<lceil>2 / 10 ^ 324\<rceil>\<close> is 1, and \<open>main\<close> writes no
  chunk at all, so both rows are lost.
\<close>

theorem huge_chunk_size_writes_no_chunk:
  "main_chunks (10 ^ 324) [r1, r2] = Inr [] \<and>
   true_divide (int (length [r1, r2])) (effective_chunk_size (10 ^ 324)) = Inr 0 \<and>
   \<lceil>rat_of_int (int (length [r1, r2])) / rat_of_int (effective_chunk_size (10 ^ 324))\<rceil> = 1"
proof -
  have e: "effective_chunk_size (10 ^ 324) = 10 ^ 324"
    by (simp add: effective_chunk_size_def)
  have "(2::int) * 2 ^ 1075 \<le> 10 ^ 324" by simp
  then have td: "true_divide 2 (10 ^ 324) = Inr 0"
    by (intro float_underflow) simp_all
  have m: "main_chunks (10 ^ 324) [r1, r2] = Inr []"
    using td unfolding main_chunks_def Let_def e by simp
  have c: "\<lceil>rat_of_int 2 / rat_of_int (10 ^ 324)\<rceil> = 1"
    by (rule ceiling_unique) simp_all
  have l: "int (length [r1, r2]) = 2" by simp
  show ?thesis unfolding e l by (intro conjI m td c)
qed

text \<open>
  Claim C9. A configured chunk size that is zero or negative is not rejected: the
  effective chunk size is 1, and the rows are cut as with chunk size 1, one row to a
  chunk (for every list of fewer than \<open>2 ^ 53\<close> rows, where the floating-point quotient
  \<open>N / 1\<close> is \<open>N\<close>).
\<close>

theorem nonpositive_chunk_size_is_one:
  fixes all_rows :: "'a list"
  assumes "chunk_size_arg \<le> 0"
  shows "effective_chunk_size chunk_size_arg = 1 \<and>
         main_chunks chunk_size_arg all_rows = main_chunks 1 all_rows \<and>
         (length all_rows < 2 ^ 53 \<longrightarrow>
          main_chunks chunk_size_arg all_rows =
            Inr (map (\<lambda>k. (int k + 1, [all_rows ! k])) [0..<length all_rows]))"
proof -
  have e: "effective_chunk_size chunk_size_arg = 1"
    using assms by (simp add: effective_chunk_size_def)
  have e1: "effective_chunk_size 1 = 1"
    by (simp add: effective_chunk_size_def)
  have same: "main_chunks chunk_size_arg all_rows = main_chunks 1 all_rows"
    by (simp add: main_chunks_def e e1)
  have rows: "main_chunks 1 all_rows =
        Inr (map (\<lambda>k. (int k + 1, [all_rows ! k])) [0..<length all_rows])"
    if l: "length all_rows < 2 ^ 53"
  proof -
    have "main_chunks 1 all_rows =
          Inr (map (\<lambda>k. (int k + 1, take 1 (drop k all_rows))) [0..<length all_rows])"
      using main_chunks_unfold[of 1 all_rows] l by simp
    moreover have "map (\<lambda>k. (int k + 1, take 1 (drop k all_rows))) [0..<length all_rows] =
          map (\<lambda>k. (int k + 1, [all_rows ! k])) [0..<length all_rows]"
      by (rule map_cong) (simp_all add: take_Suc_conv_app_nth)
    ultimately show ?thesis by (simp only:)
  qed
  show ?thesis
    using e same rows by simp
qed

theorem nonpositive_chunk_size_is_one_witness:
  "(-5::int) \<le> 0 \<and> length [''a'', ''b'', ''c''] < 2 ^ 53 \<and> effective_chunk_size (-5) = 1 \<and>
   main_chunks (-5) [''a'', ''b'', ''c''] = Inr [(1, [''a'']), (2, [''b'']), (3, [''c''])]"
proof -
  have h: "(-5::int) \<le> 0" by simp
  have l: "length [''a'', ''b'', ''c''] < 2 ^ 53" by simp
  note t = nonpositive_chunk_size_is_one[OF h, of "[''a'', ''b'', ''c'']"]
  from t have a: "effective_chunk_size (-5) = 1" by blast
  from t l have b: "main_chunks (-5) [''a'', ''b'', ''c''] =
      Inr (map (\<lambda>k. (int k + 1, [[''a'', ''b'', ''c''] ! k])) [0..<length [''a'', ''b'', ''c'']])"
    by blast
  have c: "map (\<lambda>k. (int k + 1, [[''a'', ''b'', ''c''] ! k])) [0..<length [''a'', ''b'', ''c'']] =
      [(1, [''a'']), (2, [''b'']), (3, [''c''])]"
    by (simp add: upt_rec)
  show ?thesis using h l a b c by simp
qed

section \<open>Literals: auxiliary facts\<close>

subsection \<open>The sentinel \<^verbatim>\<open>NULL\<close>\<close>

lemma lower_n: "lower_ascii c = 110 \<Longrightarrow> upper_char c = [78]"
  by (auto simp: lower_ascii_def upper_char_def Let_def split: if_splits)
lemma lower_u: "lower_ascii c = 117 \<Longrightarrow> upper_char c = [85]"
  by (auto simp: lower_ascii_def upper_char_def Let_def split: if_splits)
lemma lower_l: "lower_ascii c = 108 \<Longrightarrow> upper_char c = [76]"
  by (auto simp: lower_ascii_def upper_char_def Let_def split: if_splits)

lemma upper_of_null:
  assumes "equals_ignoring_case v ''NULL''"
  shows "upper v = code_points ''NULL''"
proof -
  have m: "map lower_ascii v = [110, 117, 108, 108]"
    using assms by (simp add: equals_ignoring_case_def lower_ascii_def)
  then obtain a b c d where v: "v = [a, b, c, d]"
    by (auto simp: map_eq_Cons_conv)
  with m have "lower_ascii a = 110" "lower_ascii b = 117" "lower_ascii c = 108" "lower_ascii d = 108"
    by simp_all
  then show ?thesis
    by (simp add: v upper_def code_points_def lower_n lower_u lower_l)
qed

lemma upper_Nil_iff: "upper v = [] \<longleftrightarrow> v = []"
  by (cases v) (auto simp: upper_def upper_char_def Let_def)

lemma upper_Cons_eq:
  assumes "upper (a # v) = x # xs" and "x \<noteq> 83"
  shows "upper_char a = [x] \<and> upper v = xs"
  using assms by (auto simp: upper_def upper_char_def Let_def split: if_splits)

lemma upper_n: "upper_char c = [78] \<Longrightarrow> lower_ascii c = 110"
  by (auto simp: lower_ascii_def upper_char_def Let_def split: if_splits)
lemma upper_u: "upper_char c = [85] \<Longrightarrow> lower_ascii c = 117"
  by (auto simp: lower_ascii_def upper_char_def Let_def split: if_splits)
lemma upper_l: "upper_char c = [76] \<Longrightarrow> lower_ascii c = 108"
  by (auto simp: lower_ascii_def upper_char_def Let_def split: if_splits)

lemma null_of_upper:
  assumes "upper v = code_points ''NULL''"
  shows "equals_ignoring_case v ''NULL''"
proof -
  have u: "upper v = [78, 85, 76, 76]"
    using assms by (simp add: code_points_def)
  then obtain a v1 where v: "v = a # v1"
    by (cases v) (simp_all add: upper_def)
  from u v have a: "upper_char a = [78]" and u1: "upper v1 = [85, 76, 76]"
    using upper_Cons_eq[of a v1 78 "[85, 76, 76]"] by simp_all
  from u1 obtain b v2 where v1: "v1 = b # v2"
    by (cases v1) (simp_all add: upper_def)
  from u1 v1 have b: "upper_char b = [85]" and u2: "upper v2 = [76, 76]"
    using upper_Cons_eq[of b v2 85 "[76, 76]"] by simp_all
  from u2 obtain c v3 where v2: "v2 = c # v3"
    by (cases v2) (simp_all add: upper_def)
  from u2 v2 have c: "upper_char c = [76]" and u3: "upper v3 = [76]"
    using upper_Cons_eq[of c v3 76 "[76]"] by simp_all
  from u3 obtain d v4 where v3: "v3 = d # v4"
    by (cases v3) (simp_all add: upper_def)
  from u3 v3 have d: "upper_char d = [76]" and u4: "upper v4 = []"
    using upper_Cons_eq[of d v4 76 "[]"] by simp_all
  from u4 have "v4 = []" by (simp add: upper_Nil_iff)
  then show ?thesis
    using a b c d by (simp add: v v1 v2 v3 equals_ignoring_case_def upper_n upper_u upper_l)
      (simp add: lower_ascii_def)
qed

lemma upper_null_iff: "upper v = code_points ''NULL'' \<longleftrightarrow> equals_ignoring_case v ''NULL''"
  using null_of_upper upper_of_null by blast

subsection \<open>Quoting\<close>

lemma replace_quote_Nil: "replace_quote [] = []"
  by (simp add: replace_quote_def)

lemma replace_quote_Cons:
  "replace_quote (c # v) = (if c = CHR 0x27 then [CHR 0x27, CHR 0x27] else [c]) @ replace_quote v"
  by (simp add: replace_quote_def)

lemma collapse_other: "c \<noteq> CHR 0x27 \<Longrightarrow> collapse_quotes (c # xs) = c # collapse_quotes xs"
  by (cases xs) simp_all

lemma collapse_replace: "collapse_quotes (replace_quote v) = v"
  by (induction v) (simp_all add: replace_quote_Nil replace_quote_Cons collapse_other)

lemma unquote_quoted:
  "unquote_literal (''N'' @ [CHR 0x27] @ replace_quote v @ [CHR 0x27]) = Some v"
  by (simp add: unquote_literal_def collapse_replace butlast_append)

lemma count_replace:
  "length (filter (\<lambda>c. c = CHR 0x27) (replace_quote v)) = 2 * length (filter (\<lambda>c. c = CHR 0x27) v)"
  by (induction v) (simp_all add: replace_quote_Nil replace_quote_Cons)

lemma others_replace:
  "filter (\<lambda>c. c \<noteq> CHR 0x27) (replace_quote v) = filter (\<lambda>c. c \<noteq> CHR 0x27) v"
  by (induction v) (simp_all add: replace_quote_Nil replace_quote_Cons)

subsection \<open>Numbers\<close>

lemma digit_not_space: "is_digit c \<Longrightarrow> \<not> isspace c"
  by (auto simp: is_digit_def isspace_def Let_def)

lemma digit_not_minus: "is_digit c \<Longrightarrow> c \<noteq> CHR ''-''"
  by (auto simp: is_digit_def)

lemma digit_not_newline: "is_digit c \<Longrightarrow> c \<noteq> CHR 0x0A"
  by (auto simp: is_digit_def)

lemma digit_upper: "is_digit c \<Longrightarrow> upper_char c = [of_char c]"
  by (auto simp: is_digit_def upper_char_def Let_def)

lemma strip_id:
  assumes "s \<noteq> []" and "\<not> isspace (hd s)" and "\<not> isspace (last s)"
  shows "strip s = s"
proof -
  have a: "dropWhile isspace s = s"
    using assms by (simp add: dropWhile_eq_self_iff)
  have b: "dropWhile isspace (rev s) = rev s"
    using assms by (simp add: dropWhile_eq_self_iff hd_rev)
  show ?thesis by (simp add: strip_def a b)
qed

text \<open>
  A trimmed value never ends in a newline, so on the values that \<open>to_sql_literal\<close>
  matches, \<^verbatim>\<open>^body$\<close> accepts exactly the strings that are the body as a whole.
\<close>

lemma strip_last:
  assumes "strip s \<noteq> []"
  shows "\<not> isspace (last (strip s))"
proof -
  define w where "w = dropWhile isspace (rev (dropWhile isspace s))"
  have "w \<noteq> []" using assms by (simp add: strip_def w_def)
  then have "\<not> isspace (hd w)"
    unfolding w_def by (rule hd_dropWhile)
  moreover have "last (strip s) = hd w"
    using \<open>w \<noteq> []\<close> by (simp add: strip_def w_def last_rev)
  ultimately show ?thesis by simp
qed

lemma re_match_stripped: "re_match body (strip s) = body (strip s)"
proof (cases "strip s = []")
  case True
  then show ?thesis by (simp add: re_match_def endswith_def)
next
  case False
  from strip_last[OF this] have "last (strip s) \<noteq> CHR 0x0A"
    by (auto simp: isspace_def)
  then show ?thesis by (simp add: re_match_def endswith_def)
qed

text \<open>The shape of a string that the body of \<open>NUMERIC_RE\<close> accepts.\<close>

lemma digit_run_shape:
  assumes "takeWhile is_digit r \<noteq> []"
    and "case dropWhile is_digit r of [] \<Rightarrow> True
         | d # fs \<Rightarrow> d = CHR ''.'' \<and> fs \<noteq> [] \<and> digits fs"
  shows "r \<noteq> [] \<and> is_digit (hd r) \<and> is_digit (last r) \<and>
         (\<forall>c \<in> set r. is_digit c \<or> c = CHR ''.'')"
proof -
  define ds where "ds = takeWhile is_digit r"
  define rest where "rest = dropWhile is_digit r"
  have r: "r = ds @ rest" by (simp add: ds_def rest_def)
  have ds: "ds \<noteq> []" "\<forall>c \<in> set ds. is_digit c"
    using assms(1) by (auto simp: ds_def dest: set_takeWhileD)
  then have hd: "is_digit (hd r)" by (cases ds) (simp_all add: r)
  show ?thesis
  proof (cases rest)
    case Nil
    then show ?thesis using ds hd by (simp add: r)
  next
    case (Cons d fs)
    with assms(2) have "d = CHR ''.''" "fs \<noteq> []" "\<forall>c \<in> set fs. is_digit c"
      by (simp_all add: rest_def[symmetric] digits_def list_all_iff)
    then show ?thesis using ds hd Cons by (auto simp: r)
  qed
qed

lemma numeric_body_shape:
  assumes "numeric_body s"
  shows "s \<noteq> [] \<and> (is_digit (hd s) \<or> hd s = CHR ''+'' \<or> hd s = CHR ''-'') \<and>
         is_digit (last s) \<and> (\<forall>c \<in> set (tl s). is_digit c \<or> c = CHR ''.'')"
proof (cases s)
  case Nil
  with assms show ?thesis by (simp add: numeric_body_def)
next
  case (Cons c cs)
  show ?thesis
  proof (cases "c = CHR ''+'' \<or> c = CHR ''-''")
    case True
    with assms Cons have "takeWhile is_digit cs \<noteq> []"
      and "case dropWhile is_digit cs of [] \<Rightarrow> True
           | d # fs \<Rightarrow> d = CHR ''.'' \<and> fs \<noteq> [] \<and> digits fs"
      by (simp_all add: numeric_body_def Let_def)
    from digit_run_shape[OF this] show ?thesis
      using True Cons by auto
  next
    case False
    with assms Cons have "takeWhile is_digit s \<noteq> []"
      and "case dropWhile is_digit s of [] \<Rightarrow> True
           | d # fs \<Rightarrow> d = CHR ''.'' \<and> fs \<noteq> [] \<and> digits fs"
      by (simp_all add: numeric_body_def Let_def)
    from digit_run_shape[OF this] show ?thesis
      by (auto simp: Cons)
  qed
qed

lemma numeric_not_iso:
  assumes "numeric_body s"
  shows "\<not> ISO_DT_RE_match s"
proof -
  note sh = numeric_body_shape[OF assms]
  have nl: "\<not> endswith s (CHR 0x0A)"
    using sh digit_not_newline by (auto simp: endswith_def)
  have "\<not> iso_dt_body s"
  proof
    assume "iso_dt_body s"
    then have d: "date_body (take 10 s)"
      by (simp add: iso_dt_body_def)
    then have len: "10 \<le> length s" and m: "s ! 4 = CHR ''-''"
      by (auto simp: date_body_def)
    from len obtain c cs where s: "s = c # cs" by (cases s) auto
    with len have "s ! 4 \<in> set (tl s)" by (simp add: s)
    with sh have "is_digit (s ! 4) \<or> s ! 4 = CHR ''.''" by blast
    with m show False by (auto simp: is_digit_def)
  qed
  with nl show ?thesis by (simp add: ISO_DT_RE_match_def re_match_def)
qed

lemma numeric_not_null:
  assumes "numeric_body s"
  shows "upper s \<noteq> code_points ''NULL''"
proof -
  note sh = numeric_body_shape[OF assms]
  then obtain c cs where s: "s = c # cs" by (cases s) auto
  with sh have "is_digit c \<or> c = CHR ''+'' \<or> c = CHR ''-''" by simp
  then have "hd (upper s) \<noteq> 78"
    by (auto simp: s upper_def upper_char_def is_digit_def Let_def)
  then show ?thesis by (auto simp: code_points_def)
qed

section \<open>Literals: claims C3, C4 and C5\<close>

text \<open>
  Claim C3. For an absent value, for a value whose trimmed form is empty and for a
  value whose trimmed form equals \<^verbatim>\<open>NULL\<close> up to case, \<open>to_sql_literal\<close> returns the
  keyword \<^verbatim>\<open>NULL\<close>.
\<close>

theorem to_sql_literal_null:
  assumes "val = None \<or>
           (\<exists>s. val = Some s \<and> (strip s = [] \<or> equals_ignoring_case (strip s) ''NULL''))"
  shows "to_sql_literal val = ''NULL''"
  using assms by (auto simp: to_sql_literal_def Let_def upper_of_null)

theorem to_sql_literal_null_witness:
  "to_sql_literal None = ''NULL'' \<and> to_sql_literal (Some [CHR 0x09, CHR '' '']) = ''NULL'' \<and>
   to_sql_literal (Some '' nUlL '') = ''NULL''"
proof -
  have a: "strip [CHR 0x09, CHR '' ''] = []" by (simp add: strip_def isspace_def)
  have b: "equals_ignoring_case (strip '' nUlL '') ''NULL''"
    by (simp add: strip_def isspace_def equals_ignoring_case_def lower_ascii_def)
  show ?thesis
    using to_sql_literal_null[of None] to_sql_literal_null[of "Some [CHR 0x09, CHR '' '']"] to_sql_literal_null[of "Some '' nUlL ''"] a b
    by simp
qed

text \<open>
  Claim C4. For every string that is, as a whole, an optional sign, one or more digits
  and optionally a decimal point followed by one or more digits, \<open>to_sql_literal\<close>
  returns the string itself, unquoted.
\<close>

theorem numeric_pass_through:
  assumes "numeric_body s"
  shows "to_sql_literal (Some s) = s"
proof -
  note sh = numeric_body_shape[OF assms]
  have "\<not> isspace (hd s)"
    using sh by (auto simp: isspace_def is_digit_def Let_def)
  moreover have "\<not> isspace (last s)"
    using sh digit_not_space by blast
  ultimately have st: "strip s = s"
    using sh strip_id by blast
  have "NUMERIC_RE_match s"
    using assms by (simp add: NUMERIC_RE_match_def re_match_def)
  then show ?thesis
    using sh numeric_not_iso[OF assms] numeric_not_null[OF assms]
    by (simp add: to_sql_literal_def st)
qed

theorem numeric_pass_through_witness: "numeric_body ''-12.50'' \<and> to_sql_literal (Some ''-12.50'') = ''-12.50''"
proof -
  have h: "numeric_body ''-12.50''" by code_simp
  from numeric_pass_through[OF h] h show ?thesis by simp
qed

text \<open>
  Claim C5, as stated: for an input that matches none of the three patterns, undoing
  the quoting of the literal gives back the input exactly. \<open>to_sql_literal\<close> quotes the
  trimmed value: the input \<^verbatim>\<open>" a"\<close> matches no pattern (trimmed or not), its literal
  is \<^verbatim>\<open>N'a'\<close>, and undoing the quoting gives \<^verbatim>\<open>"a"\<close>, without the leading space.
\<close>

theorem string_literal_round_trip_counterexample:
  "strip '' a'' \<noteq> [] \<and> \<not> equals_ignoring_case (strip '' a'') ''NULL'' \<and>
   \<not> ISO_DT_RE_match '' a'' \<and> \<not> NUMERIC_RE_match '' a'' \<and>
   \<not> ISO_DT_RE_match (strip '' a'') \<and> \<not> NUMERIC_RE_match (strip '' a'') \<and>
   to_sql_literal (Some '' a'') = [CHR ''N'', CHR 0x27, CHR ''a'', CHR 0x27] \<and>
   unquote_literal (to_sql_literal (Some '' a'')) = Some ''a'' \<and>
   unquote_literal (to_sql_literal (Some '' a'')) \<noteq> Some '' a''"
  by code_simp

text \<open>
  Claim C5, amended: for every input whose trimmed form is not empty, is not \<^verbatim>\<open>NULL\<close>
  up to case and matches neither \<open>ISO_DT_RE\<close> nor \<open>NUMERIC_RE\<close>, \<open>to_sql_literal\<close>
  returns \<^verbatim>\<open>N'...'\<close> around the trimmed form with every apostrophe doubled (twice as
  many apostrophes, the other characters as they were), and undoing the quoting gives
  back the trimmed form exactly.
\<close>

theorem string_literal_round_trip:
  assumes "strip s \<noteq> []" and "\<not> equals_ignoring_case (strip s) ''NULL''"
    and "\<not> ISO_DT_RE_match (strip s)" and "\<not> NUMERIC_RE_match (strip s)"
  shows "to_sql_literal (Some s) = ''N'' @ [CHR 0x27] @ replace_quote (strip s) @ [CHR 0x27] \<and>
         length (filter (\<lambda>c. c = CHR 0x27) (replace_quote (strip s))) =
           2 * length (filter (\<lambda>c. c = CHR 0x27) (strip s)) \<and>
         filter (\<lambda>c. c \<noteq> CHR 0x27) (replace_quote (strip s)) =
           filter (\<lambda>c. c \<noteq> CHR 0x27) (strip s) \<and>
         unquote_literal (to_sql_literal (Some s)) = Some (strip s)"
proof -
  have lit: "to_sql_literal (Some s) = ''N'' @ [CHR 0x27] @ replace_quote (strip s) @ [CHR 0x27]"
    using assms by (simp add: to_sql_literal_def Let_def upper_null_iff)
  show ?thesis
    unfolding lit using unquote_quoted[of "strip s"] count_replace[of "strip s"]
      others_replace[of "strip s"] by simp
qed

theorem string_literal_round_trip_witness:
  "strip [CHR '' '', CHR ''i'', CHR ''t'', CHR 0x27, CHR ''s'', CHR '' ''] \<noteq> [] \<and>
   \<not> equals_ignoring_case (strip [CHR '' '', CHR ''i'', CHR ''t'', CHR 0x27, CHR ''s'', CHR '' '']) ''NULL'' \<and>
   \<not> ISO_DT_RE_match (strip [CHR '' '', CHR ''i'', CHR ''t'', CHR 0x27, CHR ''s'', CHR '' '']) \<and>
   \<not> NUMERIC_RE_match (strip [CHR '' '', CHR ''i'', CHR ''t'', CHR 0x27, CHR ''s'', CHR '' '']) \<and>
   to_sql_literal (Some [CHR '' '', CHR ''i'', CHR ''t'', CHR 0x27, CHR ''s'', CHR '' '']) =
     [CHR ''N'', CHR 0x27, CHR ''i'', CHR ''t'', CHR 0x27, CHR 0x27, CHR ''s'', CHR 0x27] \<and>
   unquote_literal (to_sql_literal (Some [CHR '' '', CHR ''i'', CHR ''t'', CHR 0x27, CHR ''s'', CHR '' ''])) =
     Some [CHR ''i'', CHR ''t'', CHR 0x27, CHR ''s'']"
proof -
  have h: "strip [CHR '' '', CHR ''i'', CHR ''t'', CHR 0x27, CHR ''s'', CHR '' ''] \<noteq> []"
    "\<not> equals_ignoring_case (strip [CHR '' '', CHR ''i'', CHR ''t'', CHR 0x27, CHR ''s'', CHR '' '']) ''NULL''"
    "\<not> ISO_DT_RE_match (strip [CHR '' '', CHR ''i'', CHR ''t'', CHR 0x27, CHR ''s'', CHR '' ''])"
    "\<not> NUMERIC_RE_match (strip [CHR '' '', CHR ''i'', CHR ''t'', CHR 0x27, CHR ''s'', CHR '' ''])"
    by code_simp+
  have v: "strip [CHR '' '', CHR ''i'', CHR ''t'', CHR 0x27, CHR ''s'', CHR '' ''] =
           [CHR ''i'', CHR ''t'', CHR 0x27, CHR ''s'']"
    by code_simp
  have r: "replace_quote [CHR ''i'', CHR ''t'', CHR 0x27, CHR ''s''] =
           [CHR ''i'', CHR ''t'', CHR 0x27, CHR 0x27, CHR ''s'']"
    by code_simp
  note t = string_literal_round_trip[OF h, unfolded v r]
  from t have a: "to_sql_literal (Some [CHR '' '', CHR ''i'', CHR ''t'', CHR 0x27, CHR ''s'', CHR '' '']) =
     [CHR ''N'', CHR 0x27, CHR ''i'', CHR ''t'', CHR 0x27, CHR 0x27, CHR ''s'', CHR 0x27]"
    by simp
  from t have b: "unquote_literal (to_sql_literal (Some [CHR '' '', CHR ''i'', CHR ''t'', CHR 0x27, CHR ''s'', CHR '' ''])) =
     Some [CHR ''i'', CHR ''t'', CHR 0x27, CHR ''s'']"
    by blast
  show ?thesis using h a b by blast
qed

section \<open>Calendar: auxiliary facts\<close>


lemma mod_decomp: "0 \<le> r \<Longrightarrow> r < k \<Longrightarrow> (k * q + r) mod k = (r::int)"
  by simp












section \<open>Date-times: auxiliary facts\<close>

subsection \<open>Decimal digits\<close>











subsection \<open>Splitting at the decimal point\<close>



subsection \<open>Parsing what \<open>strftime\<close> wrote\<close>












subsection \<open>Conversion to UTC\<close>




subsection \<open>Strings that match \<open>ISO_DT_RE\<close>\<close>










section \<open>Date-times: claims C1 and C6\<close>




text \<open>
  Claim C6 says that a text which matches \<open>ISO_DT_RE\<close> and does not parse is emitted
  verbatim, as the comment in the \<^verbatim>\<open>except\<close> branch does ("fall back to the provided
  string"). The branch emits the variable \<^verbatim>\<open>v\<close>, which the two rewrites before the
  \<^verbatim>\<open>try\<close> have changed already: on the claim's own example \<^verbatim>\<open>2024-02-30\<close> the text
  emitted is \<^verbatim>\<open>2024-02-30T00:00:00\<close>. No exception leaves the function: it is total.
\<close>

theorem invalid_date_fallback_is_rewritten:
  "ISO_DT_RE_match ''2024-02-30'' \<and>
   strip ''2024-02-30'' = ''2024-02-30'' \<and>
   try_block (normalize (strip ''2024-02-30'')) = Inl ValueError \<and>
   as_sql_datetime2_126 ''2024-02-30'' = convert_126 ''2024-02-30T00:00:00'' \<and>
   as_sql_datetime2_126 ''2024-02-30'' \<noteq> convert_126 ''2024-02-30''"
  by code_simp

end
